theory Spec2Isabelle
  imports Main "HOL-Library.AList"
begin

section \<open>Severity levels\<close>

text \<open>
  \<^verbatim>\<open>enum class Level { Fatal, Error, Warning, Info, Debug, Trace };\<close> (logger.h).
  The comparisons of the source act on the underlying enumerator values 0..5,
  which \<open>level_rank\<close> gives.
\<close>

datatype Level = Fatal | Error | Warning | Info | Debug | Trace

fun level_rank :: "Level \<Rightarrow> nat" where
  "level_rank Fatal = 0"
| "level_rank Error = 1"
| "level_rank Warning = 2"
| "level_rank Info = 3"
| "level_rank Debug = 4"
| "level_rank Trace = 5"

text \<open>The operators \<^verbatim>\<open><\<close> and \<^verbatim>\<open>>=\<close> of the enumeration.\<close>

definition level_lt :: "Level \<Rightarrow> Level \<Rightarrow> bool" where
  "level_lt a b = (level_rank a < level_rank b)"

definition level_ge :: "Level \<Rightarrow> Level \<Rightarrow> bool" where
  "level_ge a b = (level_rank a \<ge> level_rank b)"

section \<open>The sink map of the legacy driver (sink.h, namespace PlainCloud::Log)\<close>

text \<open>
  A sink is identified by its pointer; \<open>m_sinks\<close> is an
  \<^verbatim>\<open>unordered_map<shared_ptr<Sink>, bool>\<close>. It is kept as an association list
  with distinct keys, whose order stands for the (unspecified) iteration order of
  the container.
\<close>

type_synonym sink_id = nat

type_synonym sink_map = "(sink_id \<times> bool) list"

text \<open>\<^verbatim>\<open>return m_sinks.insert_or_assign(sink, true).second;\<close>\<close>

definition add_sink :: "sink_id \<Rightarrow> sink_map \<Rightarrow> bool \<times> sink_map" where
  "add_sink sink m = (map_of m sink = None, AList.update sink True m)"

text \<open>\<^verbatim>\<open>return m_sinks.erase(sink) == 1;\<close>\<close>

definition remove_sink :: "sink_id \<Rightarrow> sink_map \<Rightarrow> bool \<times> sink_map" where
  "remove_sink sink m = (map_of m sink \<noteq> None, AList.delete sink m)"

text \<open>
  \<^verbatim>\<open>if (const auto itr = m_sinks.find(sink); itr != m_sinks.end()) {
      itr->second = enabled; return true; }
  return false;\<close>
\<close>

definition set_sink_enabled :: "sink_id \<Rightarrow> bool \<Rightarrow> sink_map \<Rightarrow> bool \<times> sink_map" where
  "set_sink_enabled sink enabled m =
     (case map_of m sink of
        Some old \<Rightarrow> (True, AList.update sink enabled m)
      | None \<Rightarrow> (False, m))"

text \<open>
  \<^verbatim>\<open>if (const auto itr = m_sinks.find(sink); itr != m_sinks.end()) return itr->second;
  return false;\<close>
\<close>

definition sink_enabled :: "sink_id \<Rightarrow> sink_map \<Rightarrow> bool" where
  "sink_enabled sink m = (case map_of m sink of Some en \<Rightarrow> en | None \<Rightarrow> False)"

text \<open>
  The multi-threaded driver wraps the single-threaded one: \<open>add_sink\<close> takes the
  write lock and forwards, so its sequential result is that of the wrapped operation.
\<close>

definition mt_add_sink :: "sink_id \<Rightarrow> sink_map \<Rightarrow> bool \<times> sink_map" where
  "mt_add_sink sink m = add_sink sink m"

section \<open>Message producers and emission state\<close>

text \<open>
  The callback argument of \<open>message\<close> is dispatched at compile time
  (\<^verbatim>\<open>if constexpr\<close>) over its shape: a callable taking the buffer first, a callable
  returning nothing, a callable returning the message, or a plain value. The extra
  arguments are only ever forwarded to the callable, so they are part of the closure.
  A callable may answer differently each time it is invoked (a tracked producer):
  it receives the number of invocations made before.
\<close>

datatype producer =
    BufferWriter "nat \<Rightarrow> string \<Rightarrow> string"
  | VoidCallable
  | ValueCallable "nat \<Rightarrow> string"
  | PlainValue string

text \<open>A source location: file name, function name, line.\<close>

type_synonym location = "string \<times> string \<times> nat"

text \<open>
  What a call does to the outside: the sinks it invokes, with the arguments passed,
  and the resets of the shared buffer, in program order.
\<close>

datatype event =
    SinkMessage sink_id string Level string "string option" location
  | SinkEmit sink_id Level string location
  | BufferReset

record emission =
  calls :: nat
  buffer :: string
  events :: "event list"

section \<open>Emission in the legacy driver (sink.h, namespace PlainCloud::Log)\<close>

text \<open>The fields of the logger that \<open>message\<close> reads.\<close>

record logger =
  m_level :: Level
  category :: string

text \<open>
  The body run for one enabled sink, before the reset: the callable is invoked and
  the sink's \<open>message\<close> is called with the buffer (and with the message, when the
  callable returns one or the argument is the message).
\<close>

definition invoke_sink ::
  "logger \<Rightarrow> Level \<Rightarrow> producer \<Rightarrow> location \<Rightarrow> sink_id \<Rightarrow> emission \<Rightarrow> emission" where
  "invoke_sink lg level callback loc sink st =
     (case callback of
        BufferWriter f \<Rightarrow>
          (let b = f (calls st) (buffer st) in
           st\<lparr>calls := calls st + 1, buffer := b,
              events := events st @ [SinkMessage sink b level (category lg) None loc]\<rparr>)
      | VoidCallable \<Rightarrow>
          st\<lparr>calls := calls st + 1,
             events := events st @ [SinkMessage sink (buffer st) level (category lg) None loc]\<rparr>
      | ValueCallable g \<Rightarrow>
          st\<lparr>calls := calls st + 1,
             events := events st @
               [SinkMessage sink (buffer st) level (category lg) (Some (g (calls st))) loc]\<rparr>
      | PlainValue m \<Rightarrow>
          st\<lparr>events := events st @
               [SinkMessage sink (buffer st) level (category lg) (Some m) loc]\<rparr>)"

text \<open>
  \<^verbatim>\<open>buffer.str(std::basic_string<CharType>{});\<close> The buffer is empty afterwards
  whatever the sink did to it, so the sink's own writes to the buffer are not tracked.
\<close>

definition buffer_reset :: "emission \<Rightarrow> emission" where
  "buffer_reset st = st\<lparr>buffer := [], events := events st @ [BufferReset]\<rparr>"

text \<open>\<^verbatim>\<open>for (const auto& sink : m_sinks) { if (sink.second) { ...; buffer.str({}); } }\<close>\<close>

fun message_loop ::
  "logger \<Rightarrow> Level \<Rightarrow> producer \<Rightarrow> location \<Rightarrow> sink_map \<Rightarrow> emission \<Rightarrow> emission" where
  "message_loop lg level callback loc [] st = st"
| "message_loop lg level callback loc ((sink, enabled) # rest) st =
     message_loop lg level callback loc rest
       (if enabled then buffer_reset (invoke_sink lg level callback loc sink st) else st)"

text \<open>
  \<^verbatim>\<open>if (static_cast<Level>(logger.m_level) < level) { return; }\<close> and then the loop.
\<close>

definition message_legacy ::
  "sink_map \<Rightarrow> logger \<Rightarrow> Level \<Rightarrow> producer \<Rightarrow> location \<Rightarrow> emission \<Rightarrow> emission" where
  "message_legacy m_sinks lg level callback loc st =
     (if level_lt (m_level lg) level then st
      else message_loop lg level callback loc m_sinks st)"

section \<open>Emission in the first logger (logger.h, Logger::emit)\<close>

text \<open>
  \<^verbatim>\<open>for (const auto& sink : m_sinks) {
      if (m_level >= level) sink.first->emit(level, callback(args...), location); }\<close>
  The callback is required to be invocable; a plain message is wrapped in one.
\<close>

fun emit_loop ::
  "Level \<Rightarrow> Level \<Rightarrow> (nat \<Rightarrow> string) \<Rightarrow> location \<Rightarrow> sink_map \<Rightarrow> emission \<Rightarrow> emission" where
  "emit_loop lv level callback loc [] st = st"
| "emit_loop lv level callback loc ((sink, flag) # rest) st =
     emit_loop lv level callback loc rest
       (if level_ge lv level
        then st\<lparr>calls := calls st + 1,
                events := events st @ [SinkEmit sink level (callback (calls st)) loc]\<rparr>
        else st)"

definition emit ::
  "sink_map \<Rightarrow> Level \<Rightarrow> Level \<Rightarrow> (nat \<Rightarrow> string) \<Rightarrow> location \<Rightarrow> emission \<Rightarrow> emission" where
  "emit m_sinks lv level callback loc st = emit_loop lv level callback loc m_sinks st"

section \<open>Emission in the rewritten driver (sink.h, namespace SlimLog)\<close>

type_synonym node_id = nat

text \<open>
  \<open>m_effective_sinks\<close> maps a sink to the logger that owns it; the association list
  again stands for the container in its iteration order.
\<close>

type_synonym effective = "(sink_id \<times> node_id) list"

record log_record =
  rec_level :: Level
  rec_location :: location
  rec_category :: string
  rec_thread_id :: nat
  rec_time :: "nat \<times> nat"
  rec_message :: string

text \<open>
  Modelled from the spec: \<open>Logger::level_enabled\<close> (slimlog/logger.h) is not among the
  sources. "A call at level L is admitted iff L is at least as critical as the
  threshold", Fatal being the most critical.
\<close>

definition level_enabled :: "Level \<Rightarrow> Level \<Rightarrow> bool" where
  "level_enabled thr level = (level_rank level \<le> level_rank thr)"

text \<open>
  The locals of one call: the buffer, the record, the flag \<open>evaluated\<close>; with them
  the number of invocations of the callable and the records handed to the sinks
  (\<^verbatim>\<open>sink->message(record)\<close>), in order.
\<close>

record dispatch =
  d_calls :: nat
  d_buffer :: string
  d_record :: log_record
  evaluated :: bool
  delivered :: "(sink_id \<times> log_record) list"

definition deliver :: "sink_id \<Rightarrow> dispatch \<Rightarrow> dispatch" where
  "deliver sink st = st\<lparr>delivered := delivered st @ [(sink, d_record st)]\<rparr>"

text \<open>
  The loop over \<open>m_effective_sinks\<close>. \<open>thr\<close> gives the threshold of each logger.
  A sink whose owner does not enable the level is skipped (\<^verbatim>\<open>continue\<close>); at the
  first other sink the callable is evaluated; a callable returning nothing ends the
  loop (\<^verbatim>\<open>break\<close>); otherwise the sink receives the record.
\<close>

fun sink_loop ::
  "(node_id \<Rightarrow> Level) \<Rightarrow> Level \<Rightarrow> producer \<Rightarrow> effective \<Rightarrow> dispatch \<Rightarrow> dispatch" where
  "sink_loop thr level callback [] st = st"
| "sink_loop thr level callback ((sink, owner) # rest) st =
     (if \<not> level_enabled (thr owner) level then sink_loop thr level callback rest st
      else if \<not> evaluated st then
        (case callback of
           BufferWriter f \<Rightarrow>
             (let b = f (d_calls st) (d_buffer st) in
              sink_loop thr level callback rest
                (deliver sink
                   (st\<lparr>evaluated := True, d_calls := d_calls st + 1, d_buffer := b,
                       d_record := (d_record st)\<lparr>rec_message := b\<rparr>\<rparr>)))
         | VoidCallable \<Rightarrow> st\<lparr>evaluated := True, d_calls := d_calls st + 1\<rparr>
         | ValueCallable g \<Rightarrow>
             sink_loop thr level callback rest
               (deliver sink
                  (st\<lparr>evaluated := True, d_calls := d_calls st + 1,
                      d_record := (d_record st)\<lparr>rec_message := g (d_calls st)\<rparr>\<rparr>))
         | PlainValue m \<Rightarrow>
             sink_loop thr level callback rest
               (deliver sink
                  (st\<lparr>evaluated := True,
                      d_record := (d_record st)\<lparr>rec_message := m\<rparr>\<rparr>)))
      else sink_loop thr level callback rest (deliver sink st))"

text \<open>
  The state at the head of the loop: an empty local buffer, the record built from
  the arguments, the thread id and the time, \<open>evaluated = false\<close>. \<open>n\<close> is the number
  of invocations of the callable made before this call.
\<close>

definition initial_dispatch ::
  "Level \<Rightarrow> string \<Rightarrow> location \<Rightarrow> nat \<Rightarrow> nat \<times> nat \<Rightarrow> nat \<Rightarrow> dispatch" where
  "initial_dispatch level cat loc tid tm n =
     \<lparr>d_calls = n, d_buffer = [],
      d_record = \<lparr>rec_level = level, rec_location = loc, rec_category = cat,
                  rec_thread_id = tid, rec_time = tm, rec_message = []\<rparr>,
      evaluated = False, delivered = []\<rparr>"

text \<open>
  The driver: the logger it belongs to (the call site) and its effective sinks.
\<close>

record sink_driver =
  m_logger :: node_id
  m_effective_sinks :: effective

definition message_slimlog ::
  "(node_id \<Rightarrow> Level) \<Rightarrow> sink_driver \<Rightarrow> Level \<Rightarrow> producer \<Rightarrow> string \<Rightarrow> location \<Rightarrow>
   nat \<Rightarrow> nat \<times> nat \<Rightarrow> nat \<Rightarrow> dispatch" where
  "message_slimlog thr drv level callback cat loc tid tm n =
     sink_loop thr level callback (m_effective_sinks drv)
       (initial_dispatch level cat loc tid tm n)"

section \<open>The stream sink (log/sinks/ostream_sink.h)\<close>

text \<open>The output stream: the characters written to it and the flushes it received.\<close>

record ostream =
  os_chars :: string
  os_flushes :: nat

definition ostream_write :: "string \<Rightarrow> ostream \<Rightarrow> ostream" where
  "ostream_write cs os = os\<lparr>os_chars := os_chars os @ cs\<rparr>"

definition ostream_flush :: "ostream \<Rightarrow> ostream" where
  "ostream_flush os = os\<lparr>os_flushes := os_flushes os + 1\<rparr>"

text \<open>\<^verbatim>\<open>buffer.resize(n)\<close>: truncates, or pads with value-initialised characters.\<close>

definition buffer_resize :: "nat \<Rightarrow> string \<Rightarrow> string" where
  "buffer_resize n b = take n b @ replicate (n - length b) (CHR 0x00)"

text \<open>
  Modelled from the spec: \<open>Pattern::format\<close> (pattern.h), which \<open>Sink::format\<close> calls, is
  not among the sources. Rendering appends the text of the pattern's tokens to the
  buffer; \<open>render\<close> gives that text for a record.
\<close>

definition format :: "(log_record \<Rightarrow> string) \<Rightarrow> string \<Rightarrow> log_record \<Rightarrow> string" where
  "format render b r = b @ render r"

text \<open>
  \<^verbatim>\<open>const auto orig_size = buffer.size();
  this->format(buffer, record);
  buffer.push_back('\n');
  m_ostream.write(std::next(buffer.begin(), orig_size), buffer.size() - orig_size);
  buffer.resize(orig_size);\<close>
\<close>

definition ostream_sink_message ::
  "(log_record \<Rightarrow> string) \<Rightarrow> string \<times> ostream \<Rightarrow> log_record \<Rightarrow> string \<times> ostream" where
  "ostream_sink_message render st r =
     (let orig_size = length (fst st);
          b1 = format render (fst st) r;
          b2 = b1 @ [CHR 0x0A];
          os = ostream_write (take (length b2 - orig_size) (drop orig_size b2)) (snd st)
      in (buffer_resize orig_size b2, os))"

text \<open>\<^verbatim>\<open>m_ostream.flush();\<close>\<close>

definition ostream_sink_flush :: "string \<times> ostream \<Rightarrow> string \<times> ostream" where
  "ostream_sink_flush st = (fst st, ostream_flush (snd st))"

section \<open>The logger tree and its effective sinks\<close>

text \<open>
  A node of the tree: its name, its threshold, the sinks it owns (\<open>m_sinks\<close>), its
  cached effective sinks (\<open>m_effective_sinks\<close>) and its children. The parent
  reference of a node is its position in the tree; a node is addressed by the path
  of child indices leading to it from the root.
\<close>

datatype node = Node node_id Level sink_map effective "node list"

text \<open>
  Modelled from the spec: the body of \<open>SinkDriver::update_effective_sinks\<close>
  (slimlog/sink-inl.h) is not among the sources. "Take the parent's current effective
  set (empty for a root); overlay entries for this node's own enabled sinks, each
  re-mapped to this node; where a sink exists in both sets, the local mapping wins."
\<close>

definition recompute :: "node_id \<Rightarrow> sink_map \<Rightarrow> effective \<Rightarrow> effective" where
  "recompute i own parent_eff =
     fold (\<lambda>(sink, enabled) e. if enabled then AList.update sink i e else e) own parent_eff"

text \<open>
  Modelled from the spec: the body of \<open>SinkDriver::update_effective_sinks\<close>
  (slimlog/sink-inl.h) is not among the sources. "Store as the new effective set; if
  it differs from the previous one, recurse into every child with the new parent
  set." Two effective sets differ when they do not hold the same entries.
\<close>

fun update_effective_sinks :: "effective \<Rightarrow> node \<Rightarrow> node" where
  "update_effective_sinks parent_eff (Node i lv own eff cs) =
     (let new = recompute i own parent_eff in
      if set new = set eff then Node i lv own new cs
      else Node i lv own new (map (update_effective_sinks new) cs))"

text \<open>
  Modelled from the spec: the bodies of \<open>add_sink\<close>, \<open>remove_sink\<close> and
  \<open>set_sink_enabled\<close> of the rewritten driver (slimlog/sink-inl.h) are not among the
  sources. Each changes the node's own sink map as the operation of the legacy driver
  does, and the change triggers the recomputation.
\<close>

fun node_add_sink :: "sink_id \<Rightarrow> effective \<Rightarrow> node \<Rightarrow> node" where
  "node_add_sink sink parent_eff (Node i lv own eff cs) =
     update_effective_sinks parent_eff (Node i lv (snd (add_sink sink own)) eff cs)"

fun node_remove_sink :: "sink_id \<Rightarrow> effective \<Rightarrow> node \<Rightarrow> node" where
  "node_remove_sink sink parent_eff (Node i lv own eff cs) =
     update_effective_sinks parent_eff (Node i lv (snd (remove_sink sink own)) eff cs)"

fun node_set_sink_enabled :: "sink_id \<Rightarrow> bool \<Rightarrow> effective \<Rightarrow> node \<Rightarrow> node" where
  "node_set_sink_enabled sink enabled parent_eff (Node i lv own eff cs) =
     update_effective_sinks parent_eff
       (Node i lv (snd (set_sink_enabled sink enabled own)) eff cs)"

text \<open>
  Modelled from the spec: the constructor of \<open>SinkDriver\<close> and \<open>add_child\<close>
  (slimlog/sink-inl.h) are not among the sources. A logger constructed with a parent
  becomes a new child of it, owning no sink yet, and computes its effective sinks
  from the parent's.
\<close>

fun node_attach :: "node_id \<Rightarrow> Level \<Rightarrow> effective \<Rightarrow> node \<Rightarrow> node" where
  "node_attach j lvj parent_eff (Node i lv own eff cs) =
     Node i lv own eff (cs @ [update_effective_sinks eff (Node j lvj [] [] [])])"

text \<open>
  Running an operation on the node at a path; the operation receives the effective
  sinks of that node's parent. A path that leads nowhere leaves the tree as it is.
\<close>

fun at_path :: "nat list \<Rightarrow> (effective \<Rightarrow> node \<Rightarrow> node) \<Rightarrow> effective \<Rightarrow> node \<Rightarrow> node"
and at_child ::
  "nat \<Rightarrow> nat list \<Rightarrow> (effective \<Rightarrow> node \<Rightarrow> node) \<Rightarrow> effective \<Rightarrow> node list \<Rightarrow> node list"
where
  "at_path [] f parent_eff n = f parent_eff n"
| "at_path (k # p) f parent_eff (Node i lv own eff cs) =
     Node i lv own eff (at_child k p f eff cs)"
| "at_child k p f parent_eff [] = []"
| "at_child 0 p f parent_eff (c # cs) = at_path p f parent_eff c # cs"
| "at_child (Suc k) p f parent_eff (c # cs) = c # at_child k p f parent_eff cs"

datatype operation =
    AddSink "nat list" sink_id
  | RemoveSink "nat list" sink_id
  | SetSinkEnabled "nat list" sink_id bool
  | Attach "nat list" node_id Level

fun apply_operation :: "operation \<Rightarrow> node \<Rightarrow> node" where
  "apply_operation (AddSink p sink) t = at_path p (node_add_sink sink) [] t"
| "apply_operation (RemoveSink p sink) t = at_path p (node_remove_sink sink) [] t"
| "apply_operation (SetSinkEnabled p sink en) t =
     at_path p (node_set_sink_enabled sink en) [] t"
| "apply_operation (Attach p j lv) t = at_path p (node_attach j lv) [] t"

text \<open>
  The reachable trees are those that a sequence of operations builds from a root
  logger without sinks.
\<close>

definition run :: "operation list \<Rightarrow> node \<Rightarrow> node" where
  "run ops t = fold apply_operation ops t"

section \<open>Notions used to state the properties\<close>

text \<open>The entries of an effective set whose owner enables the level.\<close>

definition admissible :: "(node_id \<Rightarrow> Level) \<Rightarrow> Level \<Rightarrow> effective \<Rightarrow> effective" where
  "admissible thr level eff = filter (\<lambda>(sink, owner). level_enabled (thr owner) level) eff"

text \<open>What one evaluation of the producer invokes: a callable once, a plain value nothing.\<close>

definition invocations :: "producer \<Rightarrow> nat" where
  "invocations callback = (case callback of PlainValue m \<Rightarrow> 0 | _ \<Rightarrow> 1)"

text \<open>
  The message that the producer yields when it is evaluated on an empty buffer after
  \<open>n\<close> earlier invocations.
\<close>

definition produced :: "producer \<Rightarrow> nat \<Rightarrow> string" where
  "produced callback n =
     (case callback of BufferWriter f \<Rightarrow> f n [] | VoidCallable \<Rightarrow> []
      | ValueCallable g \<Rightarrow> g n | PlainValue m \<Rightarrow> m)"

text \<open>The sinks invoked by a sequence of events, in order.\<close>

fun invoked_sinks :: "event list \<Rightarrow> sink_id list" where
  "invoked_sinks [] = []"
| "invoked_sinks (SinkMessage sink b level cat msg loc # es) = sink # invoked_sinks es"
| "invoked_sinks (SinkEmit sink level msg loc # es) = sink # invoked_sinks es"
| "invoked_sinks (BufferReset # es) = invoked_sinks es"

text \<open>The number of buffer resets among the events.\<close>

fun resets :: "event list \<Rightarrow> nat" where
  "resets [] = 0"
| "resets (BufferReset # es) = Suc (resets es)"
| "resets (e # es) = resets es"

text \<open>The events are sink calls each directly followed by a reset.\<close>

fun reset_after_each :: "event list \<Rightarrow> bool" where
  "reset_after_each [] = True"
| "reset_after_each (SinkMessage sink b level cat msg loc # BufferReset # es) =
     reset_after_each es"
| "reset_after_each es = False"

text \<open>
  The node's own enabled sinks, each mapped to the node, laid over the parent's
  effective set: the local entry wins.
\<close>

definition overlay ::
  "node_id \<Rightarrow> sink_map \<Rightarrow> (sink_id \<rightharpoonup> node_id) \<Rightarrow> (sink_id \<rightharpoonup> node_id)" where
  "overlay i own parent = (\<lambda>sink. if sink_enabled sink own then Some i else parent sink)"

text \<open>The invariant of the cache, at a node and at all nodes below it.\<close>

fun effective_ok :: "(sink_id \<rightharpoonup> node_id) \<Rightarrow> node \<Rightarrow> bool" where
  "effective_ok parent (Node i lv own eff cs) =
     (map_of eff = overlay i own parent \<and> (\<forall>c \<in> set cs. effective_ok (map_of eff) c))"

text \<open>Both maps of every node hold each sink once.\<close>

fun keys_ok :: "node \<Rightarrow> bool" where
  "keys_ok (Node i lv own eff cs) =
     (distinct (map fst own) \<and> distinct (map fst eff) \<and> (\<forall>c \<in> set cs. keys_ok c))"

definition good :: "effective \<Rightarrow> node \<Rightarrow> bool" where
  "good pe n = (keys_ok n \<and> effective_ok (map_of pe) n)"

text \<open>The state of a node whose own sinks have just changed: only its subtrees are in order.\<close>

fun sub_ok :: "node \<Rightarrow> bool" where
  "sub_ok (Node i lv own eff cs) =
     (distinct (map fst own) \<and> distinct (map fst eff) \<and> (\<forall>c \<in> set cs. good eff c))"

definition preserves_good :: "(effective \<Rightarrow> node \<Rightarrow> node) \<Rightarrow> bool" where
  "preserves_good f =
     (\<forall>pe n. distinct (map fst pe) \<longrightarrow> good pe n \<longrightarrow> good pe (f pe n))"

section \<open>Properties of the sink map\<close>

text \<open>
  C7: \<open>set_sink_enabled sink b\<close> on a sink the node does not hold returns false and
  leaves the sink map as it was; on a sink the node holds it stores \<open>b\<close> as the
  sink's flag, keeps every other entry, and returns true. The result is always a
  pair of a boolean and a map: there is no error outcome.
\<close>

theorem set_sink_enabled_result:
  "(map_of m sink = None \<longrightarrow> set_sink_enabled sink b m = (False, m)) \<and>
   (map_of m sink \<noteq> None \<longrightarrow>
      fst (set_sink_enabled sink b m) = True \<and>
      map_of (snd (set_sink_enabled sink b m)) = (map_of m)(sink \<mapsto> b) \<and>
      sink_enabled sink (snd (set_sink_enabled sink b m)) = b)"
  by (auto simp: set_sink_enabled_def sink_enabled_def update_conv)

theorem set_sink_enabled_result_witness:
  "map_of [(1, True), (2, True)] (3::nat) = None \<and>
   set_sink_enabled 3 False [(1, True), (2, True)] = (False, [(1, True), (2, True)]) \<and>
   map_of [(1, True), (2, True)] (2::nat) \<noteq> None \<and>
   set_sink_enabled 2 False [(1, True), (2, True)] = (True, [(1, True), (2, False)]) \<and>
   sink_enabled 2 (snd (set_sink_enabled 2 False [(1, True), (2, True)])) = False"
  using set_sink_enabled_result [of "[(1, True), (2, True)]" 3 False]
        set_sink_enabled_result [of "[(1, True), (2, True)]" 2 False]
  by (simp add: set_sink_enabled_def)

text \<open>
  C9: adding a sink the node already holds returns false and still stores true as
  its flag, in the single-threaded and in the multi-threaded driver; so a sink
  disabled by \<open>set_sink_enabled sink False\<close> is enabled again after it is re-added.
\<close>

theorem add_sink_again_enables:
  "map_of m sink \<noteq> None \<Longrightarrow>
     fst (add_sink sink m) = False \<and>
     sink_enabled sink (snd (add_sink sink m)) = True \<and>
     fst (mt_add_sink sink m) = False \<and>
     sink_enabled sink (snd (mt_add_sink sink m)) = True \<and>
     sink_enabled sink (snd (set_sink_enabled sink False m)) = False \<and>
     fst (add_sink sink (snd (set_sink_enabled sink False m))) = False \<and>
     sink_enabled sink (snd (add_sink sink (snd (set_sink_enabled sink False m)))) = True"
  by (auto simp: add_sink_def mt_add_sink_def set_sink_enabled_def sink_enabled_def update_conv)

theorem add_sink_again_enables_witness:
  "map_of [(1, True), (2, True)] (2::nat) \<noteq> None \<and>
   set_sink_enabled 2 False [(1, True), (2, True)] = (True, [(1, True), (2, False)]) \<and>
   add_sink 2 [(1, True), (2, False)] = (False, [(1, True), (2, True)]) \<and>
   sink_enabled 2 (snd (add_sink 2 (snd (set_sink_enabled 2 False [(1, True), (2, True)])))) = True"
  using add_sink_again_enables [of "[(1, True), (2, True)]" 2]
  by (simp add: add_sink_def set_sink_enabled_def)

section \<open>Properties of emission in the legacy driver and the first logger\<close>

lemma invoked_sinks_append: "invoked_sinks (xs @ ys) = invoked_sinks xs @ invoked_sinks ys"
  by (induction xs rule: invoked_sinks.induct) auto

lemma invoke_sink_calls:
  "calls (buffer_reset (invoke_sink lg level cb loc sink st)) = calls st + invocations cb"
  by (cases cb) (simp_all add: invoke_sink_def buffer_reset_def invocations_def Let_def)

lemma invoke_sink_events:
  "\<exists>b msg. events (buffer_reset (invoke_sink lg level cb loc sink st)) =
     events st @ [SinkMessage sink b level (category lg) msg loc, BufferReset]"
  by (cases cb) (simp_all add: invoke_sink_def buffer_reset_def Let_def)

lemma message_loop_calls:
  "calls (message_loop lg level cb loc sinks st) =
     calls st + invocations cb * length (filter snd sinks)"
  by (induction sinks arbitrary: st) (auto simp: invoke_sink_calls)

lemma message_loop_buffer:
  "buffer (message_loop lg level cb loc sinks st) =
     (if filter snd sinks = [] then buffer st else [])"
  by (induction sinks arbitrary: st) (auto simp: buffer_reset_def)

lemma message_loop_events:
  "\<exists>es. events (message_loop lg level cb loc sinks st) = events st @ es \<and>
        invoked_sinks es = map fst (filter snd sinks) \<and>
        resets es = length (filter snd sinks) \<and> reset_after_each es"
proof (induction sinks arbitrary: st)
  case Nil
  then show ?case by simp
next
  case (Cons a sinks)
  obtain sink enabled where a: "a = (sink, enabled)" by (cases a)
  show ?case
  proof (cases enabled)
    case False
    then show ?thesis using Cons.IH [of st] a by simp
  next
    case True
    let ?st1 = "buffer_reset (invoke_sink lg level cb loc sink st)"
    obtain b msg where e1:
      "events ?st1 = events st @ [SinkMessage sink b level (category lg) msg loc, BufferReset]"
      using invoke_sink_events by blast
    obtain es where es: "events (message_loop lg level cb loc sinks ?st1) = events ?st1 @ es"
      "invoked_sinks es = map fst (filter snd sinks)"
      "resets es = length (filter snd sinks)" "reset_after_each es"
      using Cons.IH [of ?st1] by blast
    let ?es = "SinkMessage sink b level (category lg) msg loc # BufferReset # es"
    have "events (message_loop lg level cb loc (a # sinks) st) = events st @ ?es"
      using a True es(1) e1 by simp
    moreover have "invoked_sinks ?es = map fst (filter snd (a # sinks))"
      using a True es(2) by simp
    moreover have "resets ?es = length (filter snd (a # sinks))"
      using a True es(3) by simp
    moreover have "reset_after_each ?es" using es(4) by simp
    ultimately show ?thesis by blast
  qed
qed

lemma message_loop_invoked:
  "invoked_sinks (events (message_loop lg level cb loc sinks st)) =
     invoked_sinks (events st) @ map fst (filter snd sinks)"
  using message_loop_events [of lg level cb loc sinks st]
  by (auto simp: invoked_sinks_append)

lemma emit_loop_unchanged:
  "\<not> level_ge lv level \<Longrightarrow> emit_loop lv level cb loc sinks st = st"
  by (induction sinks arbitrary: st) auto

lemma emit_loop_admitted:
  "level_ge lv level \<Longrightarrow>
   calls (emit_loop lv level cb loc sinks st) = calls st + length sinks \<and>
   invoked_sinks (events (emit_loop lv level cb loc sinks st)) =
     invoked_sinks (events st) @ map fst sinks"
  by (induction sinks arbitrary: st) (auto simp: invoked_sinks_append)

text \<open>
  C2: the levels are ordered Fatal, Error, Warning, Info, Debug, Trace, most critical
  first. A call at a level that is at least as critical as the threshold of the
  logger is admitted: \<open>message\<close> of the legacy driver invokes the producer for, and
  calls, each enabled sink, and \<open>Logger::emit\<close> does so for each sink. A call at any
  other level changes nothing: the producer is not invoked and no sink is called.
\<close>

theorem level_gate:
  "level_rank Fatal < level_rank Error \<and> level_rank Error < level_rank Warning \<and>
   level_rank Warning < level_rank Info \<and> level_rank Info < level_rank Debug \<and>
   level_rank Debug < level_rank Trace \<and>
   (if level_rank level \<le> level_rank (m_level lg)
    then calls (message_legacy sinks lg level cb loc st) =
           calls st + invocations cb * length (filter snd sinks) \<and>
         invoked_sinks (events (message_legacy sinks lg level cb loc st)) =
           invoked_sinks (events st) @ map fst (filter snd sinks) \<and>
         calls (emit sinks (m_level lg) level g loc st) = calls st + length sinks \<and>
         invoked_sinks (events (emit sinks (m_level lg) level g loc st)) =
           invoked_sinks (events st) @ map fst sinks
    else message_legacy sinks lg level cb loc st = st \<and>
         emit sinks (m_level lg) level g loc st = st)"
proof (cases "level_rank level \<le> level_rank (m_level lg)")
  case True
  then have "\<not> level_lt (m_level lg) level" and "level_ge (m_level lg) level"
    by (simp_all add: level_lt_def level_ge_def)
  then show ?thesis using True
    by (simp add: message_legacy_def emit_def message_loop_calls message_loop_invoked
        emit_loop_admitted)
next
  case False
  then have "level_lt (m_level lg) level" and "\<not> level_ge (m_level lg) level"
    by (simp_all add: level_lt_def level_ge_def)
  then show ?thesis using False
    by (simp add: message_legacy_def emit_def emit_loop_unchanged)
qed

theorem level_gate_witness:
  "message_legacy [(1, True), (2, True)] \<lparr>m_level = Warning, category = ''net''\<rparr> Debug
     (ValueCallable (\<lambda>n. ''up'')) (''main.cpp'', ''main'', 7)
     \<lparr>calls = 0, buffer = [], events = []\<rparr> = \<lparr>calls = 0, buffer = [], events = []\<rparr> \<and>
   emit [(1, True), (2, True)] Warning Debug (\<lambda>n. ''up'') (''main.cpp'', ''main'', 7)
     \<lparr>calls = 0, buffer = [], events = []\<rparr> = \<lparr>calls = 0, buffer = [], events = []\<rparr> \<and>
   calls (message_legacy [(1, True), (2, False)] \<lparr>m_level = Warning, category = ''net''\<rparr> Error
     (ValueCallable (\<lambda>n. ''up'')) (''main.cpp'', ''main'', 7)
     \<lparr>calls = 0, buffer = [], events = []\<rparr>) = 1 \<and>
   invoked_sinks (events (message_legacy [(1, True), (2, False)]
     \<lparr>m_level = Warning, category = ''net''\<rparr> Error
     (ValueCallable (\<lambda>n. ''up'')) (''main.cpp'', ''main'', 7)
     \<lparr>calls = 0, buffer = [], events = []\<rparr>)) = [1]"
  using level_gate [of Debug "\<lparr>m_level = Warning, category = ''net''\<rparr>"
          "[(1, True), (2, True)]" "ValueCallable (\<lambda>n. ''up'')" "(''main.cpp'', ''main'', 7)"
          "\<lparr>calls = 0, buffer = [], events = []\<rparr>" "\<lambda>n. ''up''"]
        level_gate [of Error "\<lparr>m_level = Warning, category = ''net''\<rparr>"
          "[(1, True), (2, False)]" "ValueCallable (\<lambda>n. ''up'')" "(''main.cpp'', ''main'', 7)"
          "\<lparr>calls = 0, buffer = [], events = []\<rparr>" "\<lambda>n. ''up''"]
  by (simp add: invocations_def)

section \<open>Properties of emission in the rewritten driver\<close>

lemma sink_loop_evaluated:
  "evaluated st \<Longrightarrow>
   sink_loop thr level cb eff st =
     st\<lparr>delivered := delivered st @
          map (\<lambda>(sink, owner). (sink, d_record st)) (admissible thr level eff)\<rparr>"
  by (induction eff arbitrary: st) (auto simp: admissible_def deliver_def)

lemma sink_loop_none:
  "admissible thr level eff = [] \<Longrightarrow> sink_loop thr level cb eff st = st"
  by (induction eff arbitrary: st) (auto simp: admissible_def split: if_splits)

lemma sink_loop_void:
  "\<not> evaluated st \<Longrightarrow> admissible thr level eff \<noteq> [] \<Longrightarrow>
   sink_loop thr level VoidCallable eff st = st\<lparr>evaluated := True, d_calls := d_calls st + 1\<rparr>"
  by (induction eff arbitrary: st) (auto simp: admissible_def split: if_splits)

lemma sink_loop_first:
  "\<not> evaluated st \<Longrightarrow> cb \<noteq> VoidCallable \<Longrightarrow> admissible thr level eff \<noteq> [] \<Longrightarrow>
   sink_loop thr level cb eff st =
     (let b = (case cb of BufferWriter f \<Rightarrow> f (d_calls st) (d_buffer st) | _ \<Rightarrow> d_buffer st);
          m = (case cb of BufferWriter f \<Rightarrow> f (d_calls st) (d_buffer st)
                 | ValueCallable g \<Rightarrow> g (d_calls st) | PlainValue m \<Rightarrow> m | VoidCallable \<Rightarrow> []);
          r = (d_record st)\<lparr>rec_message := m\<rparr>
      in st\<lparr>evaluated := True, d_calls := d_calls st + invocations cb,
            d_buffer := b, d_record := r,
            delivered := delivered st @
              map (\<lambda>(sink, owner). (sink, r)) (admissible thr level eff)\<rparr>)"
proof (induction eff arbitrary: st)
  case Nil
  then show ?case by (simp add: admissible_def)
next
  case (Cons a eff)
  obtain sink owner where a: "a = (sink, owner)" by (cases a)
  show ?case
  proof (cases "level_enabled (thr owner) level")
    case True
    then show ?thesis using Cons.prems a
      by (cases cb)
         (simp_all add: sink_loop_evaluated deliver_def admissible_def invocations_def Let_def)
  next
    case False
    then have "admissible thr level eff \<noteq> []" using Cons.prems a by (simp add: admissible_def)
    then show ?thesis using Cons.IH [OF Cons.prems(1,2)] False a
      by (simp add: admissible_def)
  qed
qed

lemma initial_not_evaluated: "\<not> evaluated (initial_dispatch level cat loc tid tm n)"
  by (simp add: initial_dispatch_def)

lemma message_slimlog_none:
  "admissible thr level (m_effective_sinks drv) = [] \<Longrightarrow>
   message_slimlog thr drv level cb cat loc tid tm n = initial_dispatch level cat loc tid tm n"
  by (simp add: message_slimlog_def sink_loop_none)

lemma message_slimlog_void_some:
  "admissible thr level (m_effective_sinks drv) \<noteq> [] \<Longrightarrow>
   message_slimlog thr drv level VoidCallable cat loc tid tm n =
     (initial_dispatch level cat loc tid tm n)\<lparr>evaluated := True, d_calls := n + 1\<rparr>"
  unfolding message_slimlog_def
  by (subst sink_loop_void [OF initial_not_evaluated]) (simp_all add: initial_dispatch_def)

lemma message_slimlog_some:
  assumes "cb \<noteq> VoidCallable" and "admissible thr level (m_effective_sinks drv) \<noteq> []"
  shows "message_slimlog thr drv level cb cat loc tid tm n =
     \<lparr>d_calls = n + invocations cb,
      d_buffer = (case cb of BufferWriter f \<Rightarrow> f n [] | _ \<Rightarrow> []),
      d_record = \<lparr>rec_level = level, rec_location = loc, rec_category = cat,
                  rec_thread_id = tid, rec_time = tm, rec_message = produced cb n\<rparr>,
      evaluated = True,
      delivered =
        map (\<lambda>(sink, owner).
               (sink, \<lparr>rec_level = level, rec_location = loc, rec_category = cat,
                       rec_thread_id = tid, rec_time = tm, rec_message = produced cb n\<rparr>))
            (admissible thr level (m_effective_sinks drv))\<rparr>"
  unfolding message_slimlog_def
  by (subst sink_loop_first [OF initial_not_evaluated assms])
     (cases cb; simp add: initial_dispatch_def produced_def Let_def)

lemma message_slimlog_calls:
  "d_calls (message_slimlog thr drv level cb cat loc tid tm n) =
     (if admissible thr level (m_effective_sinks drv) = [] then n else n + invocations cb)"
proof (cases "admissible thr level (m_effective_sinks drv) = []")
  case True
  then show ?thesis by (simp add: message_slimlog_none initial_dispatch_def)
next
  case False
  then show ?thesis
    by (cases "cb = VoidCallable")
       (simp_all add: message_slimlog_void_some message_slimlog_some invocations_def)
qed

lemma message_slimlog_delivered:
  "cb \<noteq> VoidCallable \<Longrightarrow>
   delivered (message_slimlog thr drv level cb cat loc tid tm n) =
     map (\<lambda>(sink, owner).
            (sink, \<lparr>rec_level = level, rec_location = loc, rec_category = cat,
                    rec_thread_id = tid, rec_time = tm, rec_message = produced cb n\<rparr>))
         (admissible thr level (m_effective_sinks drv))"
  by (cases "admissible thr level (m_effective_sinks drv) = []")
     (simp_all add: message_slimlog_none message_slimlog_some initial_dispatch_def)

lemma message_slimlog_void:
  "delivered (message_slimlog thr drv level VoidCallable cat loc tid tm n) = []"
  by (cases "admissible thr level (m_effective_sinks drv) = []")
     (simp_all add: message_slimlog_none message_slimlog_void_some initial_dispatch_def)

lemma message_slimlog_buffer:
  "admissible thr level (m_effective_sinks drv) \<noteq> [] \<Longrightarrow>
   d_buffer (message_slimlog thr drv level cb cat loc tid tm n) =
     (case cb of BufferWriter f \<Rightarrow> f n [] | _ \<Rightarrow> [])"
  by (cases "cb = VoidCallable")
     (simp_all add: message_slimlog_void_some message_slimlog_some initial_dispatch_def)

lemma sink_loop_owner_thresholds:
  "\<forall>(sink, owner) \<in> set eff. thr' owner = thr owner \<Longrightarrow>
   sink_loop thr' level cb eff st = sink_loop thr level cb eff st"
  by (induction thr level cb eff st rule: sink_loop.induct)
     (auto split: producer.splits simp: Let_def)

text \<open>
  C1, as amended. In the rewritten driver a call with at least one admissible sink
  invokes a callable producer exactly once (a plain value is used as it is, nothing
  being invoked), and a call with none does not invoke it; when the producer yields a
  message (it is not a callable returning nothing), every admissible sink, in order,
  receives the record carrying that one message. The legacy driver invokes a callable
  producer once for each enabled sink of a call that passes the level check.
\<close>

theorem producer_evaluated_once:
  "d_calls (message_slimlog thr drv level cb cat loc tid tm n) =
     (if admissible thr level (m_effective_sinks drv) = [] then n else n + invocations cb) \<and>
   (cb \<noteq> VoidCallable \<longrightarrow>
      delivered (message_slimlog thr drv level cb cat loc tid tm n) =
        map (\<lambda>(sink, owner).
               (sink, \<lparr>rec_level = level, rec_location = loc, rec_category = cat,
                       rec_thread_id = tid, rec_time = tm, rec_message = produced cb n\<rparr>))
            (admissible thr level (m_effective_sinks drv))) \<and>
   calls (message_legacy sinks lg level cb loc st) =
     calls st +
       (if level_lt (m_level lg) level then 0 else invocations cb * length (filter snd sinks))"
  by (simp add: message_slimlog_calls message_slimlog_delivered message_legacy_def
      message_loop_calls)

theorem producer_evaluated_once_witness:
  "d_calls (message_slimlog ((!) [Warning, Trace])
      \<lparr>m_logger = 1, m_effective_sinks = [(10, 0), (11, 1), (12, 1)]\<rparr> Debug
      (ValueCallable ((!) [''first'', ''second''])) ''net'' (''main.cpp'', ''main'', 7) 3 (5, 9) 0) = 1 \<and>
   delivered (message_slimlog ((!) [Warning, Trace])
      \<lparr>m_logger = 1, m_effective_sinks = [(10, 0), (11, 1), (12, 1)]\<rparr> Debug
      (ValueCallable ((!) [''first'', ''second''])) ''net'' (''main.cpp'', ''main'', 7) 3 (5, 9) 0) =
     [(11, \<lparr>rec_level = Debug, rec_location = (''main.cpp'', ''main'', 7),
            rec_category = ''net'', rec_thread_id = 3, rec_time = (5, 9),
            rec_message = ''first''\<rparr>),
      (12, \<lparr>rec_level = Debug, rec_location = (''main.cpp'', ''main'', 7),
            rec_category = ''net'', rec_thread_id = 3, rec_time = (5, 9),
            rec_message = ''first''\<rparr>)] \<and>
   calls (message_legacy [(11, True), (12, True)] \<lparr>m_level = Trace, category = ''net''\<rparr> Debug
      (ValueCallable ((!) [''first'', ''second''])) (''main.cpp'', ''main'', 7)
      \<lparr>calls = 0, buffer = [], events = []\<rparr>) = 2"
  using producer_evaluated_once [of "(!) [Warning, Trace]"
          "\<lparr>m_logger = 1, m_effective_sinks = [(10, 0), (11, 1), (12, 1)]\<rparr>" Debug
          "ValueCallable ((!) [''first'', ''second''])" "''net''" "(''main.cpp'', ''main'', 7)"
          3 "(5, 9)" 0 "[(11, True), (12, True)]" "\<lparr>m_level = Trace, category = ''net''\<rparr>"
          "\<lparr>calls = 0, buffer = [], events = []\<rparr>"]
  by (simp add: admissible_def level_enabled_def invocations_def produced_def level_lt_def)

text \<open>
  The claim as stated fails in the legacy driver: with two enabled sinks the producer
  is invoked twice, and the second sink receives the result of the second
  invocation.
\<close>

theorem producer_evaluated_once_counterexample:
  "calls (message_legacy [(1, True), (2, True)] \<lparr>m_level = Info, category = ''net''\<rparr> Info
      (ValueCallable ((!) [''first'', ''second''])) (''main.cpp'', ''main'', 7)
      \<lparr>calls = 0, buffer = [], events = []\<rparr>) = 2 \<and>
   events (message_legacy [(1, True), (2, True)] \<lparr>m_level = Info, category = ''net''\<rparr> Info
      (ValueCallable ((!) [''first'', ''second''])) (''main.cpp'', ''main'', 7)
      \<lparr>calls = 0, buffer = [], events = []\<rparr>) =
     [SinkMessage 1 [] Info ''net'' (Some ''first'') (''main.cpp'', ''main'', 7), BufferReset,
      SinkMessage 2 [] Info ''net'' (Some ''second'') (''main.cpp'', ''main'', 7), BufferReset]"
  by (simp add: message_legacy_def level_lt_def invoke_sink_def buffer_reset_def)

text \<open>
  C4: in the rewritten driver a sink of the effective set receives the record exactly
  when the threshold of the logger recorded as its owner admits the level (a callable
  returning nothing delivers to no sink at all). The threshold of the logger at which
  the call is made plays no part: when that logger owns none of the entries, changing
  its threshold leaves the outcome of the call as it is.
\<close>

theorem admission_by_owner:
  "map fst (delivered (message_slimlog thr drv level cb cat loc tid tm n)) =
     (if cb = VoidCallable then []
      else map fst (filter (\<lambda>(sink, owner). level_rank level \<le> level_rank (thr owner))
                      (m_effective_sinks drv))) \<and>
   (m_logger drv \<notin> snd ` set (m_effective_sinks drv) \<longrightarrow>
      message_slimlog (thr(m_logger drv := t)) drv level cb cat loc tid tm n =
      message_slimlog thr drv level cb cat loc tid tm n)"
proof (intro conjI impI)
  show "map fst (delivered (message_slimlog thr drv level cb cat loc tid tm n)) =
     (if cb = VoidCallable then []
      else map fst (filter (\<lambda>(sink, owner). level_rank level \<le> level_rank (thr owner))
                      (m_effective_sinks drv)))"
    by (cases "cb = VoidCallable")
       (simp_all add: message_slimlog_void message_slimlog_delivered admissible_def
          level_enabled_def comp_def case_prod_unfold)
next
  assume "m_logger drv \<notin> snd ` set (m_effective_sinks drv)"
  then have "\<forall>(sink, owner) \<in> set (m_effective_sinks drv).
               (thr(m_logger drv := t)) owner = thr owner"
    by force
  then show "message_slimlog (thr(m_logger drv := t)) drv level cb cat loc tid tm n =
             message_slimlog thr drv level cb cat loc tid tm n"
    unfolding message_slimlog_def by (rule sink_loop_owner_thresholds)
qed

theorem admission_by_owner_witness:
  "map fst (delivered (message_slimlog ((!) [Warning, Trace])
      \<lparr>m_logger = 1, m_effective_sinks = [(10, 0)]\<rparr> Debug (PlainValue ''up'') ''net''
      (''main.cpp'', ''main'', 7) 3 (5, 9) 0)) = [] \<and>
   map fst (delivered (message_slimlog ((!) [Warning, Trace])
      \<lparr>m_logger = 1, m_effective_sinks = [(10, 0)]\<rparr> Error (PlainValue ''up'') ''net''
      (''main.cpp'', ''main'', 7) 3 (5, 9) 0)) = [10] \<and>
   (1::nat) \<notin> snd ` set [(10::nat, 0::nat)] \<and>
   message_slimlog (((!) [Warning, Trace])(1 := Fatal))
      \<lparr>m_logger = 1, m_effective_sinks = [(10, 0)]\<rparr> Error (PlainValue ''up'') ''net''
      (''main.cpp'', ''main'', 7) 3 (5, 9) 0 =
   message_slimlog ((!) [Warning, Trace])
      \<lparr>m_logger = 1, m_effective_sinks = [(10, 0)]\<rparr> Error (PlainValue ''up'') ''net''
      (''main.cpp'', ''main'', 7) 3 (5, 9) 0"
  using admission_by_owner [of "(!) [Warning, Trace]"
          "\<lparr>m_logger = 1, m_effective_sinks = [(10, 0)]\<rparr>" Debug "PlainValue ''up''" "''net''"
          "(''main.cpp'', ''main'', 7)" 3 "(5, 9)" 0 Fatal]
        admission_by_owner [of "(!) [Warning, Trace]"
          "\<lparr>m_logger = 1, m_effective_sinks = [(10, 0)]\<rparr>" Error "PlainValue ''up''" "''net''"
          "(''main.cpp'', ''main'', 7)" 3 "(5, 9)" 0 Fatal]
  by simp

text \<open>
  C10: in the rewritten driver a callable that returns nothing and does not take the
  buffer is invoked once when some sink is admissible (and not at all otherwise), and
  no sink receives a record for the call.
\<close>

theorem void_callable_breaks:
  "delivered (message_slimlog thr drv level VoidCallable cat loc tid tm n) = [] \<and>
   d_calls (message_slimlog thr drv level VoidCallable cat loc tid tm n) =
     (if admissible thr level (m_effective_sinks drv) = [] then n else n + 1)"
  by (simp add: message_slimlog_void message_slimlog_calls invocations_def)

theorem void_callable_breaks_witness:
  "admissible ((!) [Info, Trace]) Info [(10, 0), (11, 1)] \<noteq> [] \<and>
   delivered (message_slimlog ((!) [Info, Trace])
      \<lparr>m_logger = 1, m_effective_sinks = [(10, 0), (11, 1)]\<rparr> Info VoidCallable ''net''
      (''main.cpp'', ''main'', 7) 3 (5, 9) 0) = [] \<and>
   d_calls (message_slimlog ((!) [Info, Trace])
      \<lparr>m_logger = 1, m_effective_sinks = [(10, 0), (11, 1)]\<rparr> Info VoidCallable ''net''
      (''main.cpp'', ''main'', 7) 3 (5, 9) 0) = 1"
  using void_callable_breaks [of "(!) [Info, Trace]"
          "\<lparr>m_logger = 1, m_effective_sinks = [(10, 0), (11, 1)]\<rparr>" Info "''net''"
          "(''main.cpp'', ''main'', 7)" 3 "(5, 9)" 0]
  by (simp add: admissible_def level_enabled_def)

text \<open>
  C5, as amended. In the legacy driver the shared buffer is reset once for each
  enabled sink, inside the loop, directly after the call of that sink: a call that
  passes the level check with k enabled sinks resets the buffer k times, and leaves
  it empty unless k is 0. In the rewritten driver the buffer is a local of the call:
  a producer writing into it fills it once, it is not reset while the sinks are
  served, and every record handed to a sink carries that content.
\<close>

theorem buffer_reset_per_sink:
  "(\<not> level_lt (m_level lg) level \<longrightarrow>
      (\<exists>es. events (message_legacy sinks lg level cb loc st) = events st @ es \<and>
            invoked_sinks es = map fst (filter snd sinks) \<and>
            resets es = length (filter snd sinks) \<and> reset_after_each es) \<and>
      buffer (message_legacy sinks lg level cb loc st) =
        (if filter snd sinks = [] then buffer st else [])) \<and>
   (admissible thr level (m_effective_sinks drv) \<noteq> [] \<longrightarrow>
      d_buffer (message_slimlog thr drv level (BufferWriter f) cat loc' tid tm n) = f n [] \<and>
      list_all (\<lambda>(sink, r). rec_message r = f n [])
        (delivered (message_slimlog thr drv level (BufferWriter f) cat loc' tid tm n)))"
  using message_loop_events [of lg level cb loc sinks st]
  by (simp add: message_legacy_def message_loop_buffer message_slimlog_buffer
      message_slimlog_delivered produced_def list_all_iff case_prod_unfold)

theorem buffer_reset_per_sink_witness:
  "\<not> level_lt (m_level \<lparr>m_level = Info, category = ''net''\<rparr>) Info \<and>
   resets (events (message_legacy [(1, True), (2, True)] \<lparr>m_level = Info, category = ''net''\<rparr>
      Info (PlainValue ''up'') (''main.cpp'', ''main'', 7)
      \<lparr>calls = 0, buffer = [], events = []\<rparr>)) = 2 \<and>
   reset_after_each (events (message_legacy [(1, True), (2, True)]
      \<lparr>m_level = Info, category = ''net''\<rparr>
      Info (PlainValue ''up'') (''main.cpp'', ''main'', 7)
      \<lparr>calls = 0, buffer = [], events = []\<rparr>)) \<and>
   admissible ((!) [Info, Trace]) Info [(10, 0), (11, 1)] \<noteq> [] \<and>
   d_buffer (message_slimlog ((!) [Info, Trace])
      \<lparr>m_logger = 1, m_effective_sinks = [(10, 0), (11, 1)]\<rparr> Info
      (BufferWriter (\<lambda>n b. b @ ''up'')) ''net'' (''main.cpp'', ''main'', 7) 3 (5, 9) 0) = ''up'' \<and>
   map (\<lambda>(sink, r). rec_message r) (delivered (message_slimlog ((!) [Info, Trace])
      \<lparr>m_logger = 1, m_effective_sinks = [(10, 0), (11, 1)]\<rparr> Info
      (BufferWriter (\<lambda>n b. b @ ''up'')) ''net'' (''main.cpp'', ''main'', 7) 3 (5, 9) 0)) =
     [''up'', ''up'']"
  using buffer_reset_per_sink [of "\<lparr>m_level = Info, category = ''net''\<rparr>" Info
          "[(1, True), (2, True)]" "PlainValue ''up''" "(''main.cpp'', ''main'', 7)"
          "\<lparr>calls = 0, buffer = [], events = []\<rparr>" "(!) [Info, Trace]"
          "\<lparr>m_logger = 1, m_effective_sinks = [(10, 0), (11, 1)]\<rparr>"
          "\<lambda>n b. b @ ''up''" "''net''" "(''main.cpp'', ''main'', 7)" 3 "(5, 9)" 0]
  by (simp add: level_lt_def admissible_def level_enabled_def message_legacy_def
      invoke_sink_def buffer_reset_def message_slimlog_def initial_dispatch_def deliver_def
      Let_def)

text \<open>
  The claim as stated fails in the legacy driver: with two enabled sinks the buffer
  is reset twice, the first time between the two sinks.
\<close>

theorem buffer_reset_per_sink_counterexample:
  "events (message_legacy [(1, True), (2, True)] \<lparr>m_level = Info, category = ''net''\<rparr> Info
      (PlainValue ''up'') (''main.cpp'', ''main'', 7) \<lparr>calls = 0, buffer = [], events = []\<rparr>) =
     [SinkMessage 1 [] Info ''net'' (Some ''up'') (''main.cpp'', ''main'', 7), BufferReset,
      SinkMessage 2 [] Info ''net'' (Some ''up'') (''main.cpp'', ''main'', 7), BufferReset] \<and>
   resets (events (message_legacy [(1, True), (2, True)] \<lparr>m_level = Info, category = ''net''\<rparr>
      Info (PlainValue ''up'') (''main.cpp'', ''main'', 7)
      \<lparr>calls = 0, buffer = [], events = []\<rparr>)) = 2"
  by (simp add: message_legacy_def level_lt_def invoke_sink_def buffer_reset_def)

section \<open>Properties of the stream sink\<close>

text \<open>
  C8: \<open>OStreamSink::message\<close> writes to the stream the rendering of the record by the
  pattern followed by one line feed, and nothing else, and leaves the buffer as it
  received it; \<open>OStreamSink::flush\<close> passes one flush on to the stream.
\<close>

theorem ostream_sink_writes_line:
  "ostream_sink_message render (b, os) r =
     (b, os\<lparr>os_chars := os_chars os @ render r @ [CHR 0x0A]\<rparr>) \<and>
   ostream_sink_flush (b, os) = (b, os\<lparr>os_flushes := os_flushes os + 1\<rparr>)"
  by (simp add: ostream_sink_message_def ostream_sink_flush_def format_def ostream_write_def
      ostream_flush_def buffer_resize_def Let_def)

section \<open>Properties of the effective sinks\<close>

lemma recompute_distinct:
  "distinct (map fst pe) \<Longrightarrow> distinct (map fst (recompute i own pe))"
  unfolding recompute_def
  by (induction own arbitrary: pe) (auto simp: distinct_update)

lemma sink_enabled_Cons:
  "sink_enabled x ((s, en) # rest) = (if x = s then en else sink_enabled x rest)"
  by (simp add: sink_enabled_def)

lemma sink_enabled_absent: "s \<notin> fst ` set rest \<Longrightarrow> sink_enabled s rest = False"
proof -
  assume "s \<notin> fst ` set rest"
  then have "map_of rest s = None" by (simp add: map_of_eq_None_iff)
  then show ?thesis by (simp add: sink_enabled_def)
qed

lemma recompute_overlay:
  "distinct (map fst own) \<Longrightarrow> map_of (recompute i own pe) = overlay i own (map_of pe)"
proof (induction own arbitrary: pe)
  case Nil
  then show ?case by (simp add: recompute_def overlay_def sink_enabled_def)
next
  case (Cons a own)
  obtain s en where a: "a = (s, en)" by (cases a)
  let ?pe = "if en then AList.update s i pe else pe"
  have absent: "sink_enabled s own = False"
    using Cons.prems a by (intro sink_enabled_absent) auto
  have step: "recompute i (a # own) pe = recompute i own ?pe"
    using a by (simp add: recompute_def)
  have "map_of (recompute i own ?pe) = overlay i own (map_of ?pe)"
    using Cons.IH [of ?pe] Cons.prems by simp
  also have "\<dots> = overlay i (a # own) (map_of pe)"
    using a absent by (auto simp: overlay_def sink_enabled_Cons update_conv fun_eq_iff)
  finally show ?case using step by simp
qed

lemma good_sub_ok: "good pe n \<Longrightarrow> sub_ok n"
  by (cases n) (auto simp: good_def)

lemma good_cong: "map_of pe = map_of pe' \<Longrightarrow> good pe n = good pe' n"
  by (simp add: good_def)

text \<open>
  The recomputation puts a node in order under any parent set, provided the subtrees
  of the node were in order before: either the set of the node is unchanged and so
  are they, or every child is recomputed in turn.
\<close>

lemma update_establishes:
  "distinct (map fst pe) \<Longrightarrow> sub_ok n \<Longrightarrow> good pe (update_effective_sinks pe n)"
proof (induction n arbitrary: pe)
  case (Node i lv own eff cs)
  let ?new = "recompute i own pe"
  have d_own: "distinct (map fst own)" and d_eff: "distinct (map fst eff)"
    and kids: "\<forall>c \<in> set cs. good eff c"
    using Node.prems(2) by auto
  have d_new: "distinct (map fst ?new)" using Node.prems(1) by (rule recompute_distinct)
  have m_new: "map_of ?new = overlay i own (map_of pe)" using d_own by (rule recompute_overlay)
  show ?case
  proof (cases "set ?new = set eff")
    case True
    then have "map_of ?new = map_of eff"
      using d_new d_eff by (simp add: map_of_inject_set)
    then have "\<forall>c \<in> set cs. good ?new c" using kids good_cong by blast
    then show ?thesis using True d_own d_new m_new by (auto simp: good_def Let_def)
  next
    case False
    have "\<forall>c \<in> set cs. good ?new (update_effective_sinks ?new c)"
      using Node.IH d_new kids good_sub_ok by blast
    then show ?thesis using False d_own d_new m_new by (auto simp: good_def Let_def)
  qed
qed

lemma at_path_good:
  shows "preserves_good f \<Longrightarrow> distinct (map fst pe) \<Longrightarrow> good pe n \<Longrightarrow>
         good pe (at_path p f pe n)"
    and "preserves_good f \<Longrightarrow> distinct (map fst pe) \<Longrightarrow> \<forall>c \<in> set cs. good pe c \<Longrightarrow>
         \<forall>c \<in> set (at_child k p f pe cs). good pe c"
proof (induction p f pe n and k p f pe cs rule: at_path_at_child.induct)
  case (1 f parent_eff n)
  then show ?case by (simp add: preserves_good_def)
next
  case (2 k p f parent_eff i lv own eff cs)
  have d: "distinct (map fst eff)" and kids: "\<forall>c \<in> set cs. good eff c"
    using "2.prems"(3) by (auto simp: good_def)
  have "\<forall>c \<in> set (at_child k p f eff cs). good eff c"
    using "2.IH" "2.prems"(1) d kids by blast
  then show ?case using "2.prems"(3) by (auto simp: good_def)
next
  case (3 k p f parent_eff)
  then show ?case by simp
next
  case (4 p f parent_eff c cs)
  then show ?case by simp
next
  case (5 k p f parent_eff c cs)
  then show ?case by simp
qed

lemma good_node_sub_ok:
  "good pe (Node i lv own eff cs) \<Longrightarrow> distinct (map fst own') \<Longrightarrow>
   sub_ok (Node i lv own' eff cs)"
  by (auto simp: good_def)

lemma node_add_sink_good: "preserves_good (node_add_sink sink)"
  unfolding preserves_good_def
proof (intro allI impI)
  fix pe n
  assume d: "distinct (map fst pe)" and g: "good pe n"
  obtain i lv own eff cs where n: "n = Node i lv own eff cs" by (cases n)
  have "distinct (map fst own)" using g n by (simp add: good_def)
  then have "distinct (map fst (snd (add_sink sink own)))"
    by (simp add: add_sink_def distinct_update)
  then have "sub_ok (Node i lv (snd (add_sink sink own)) eff cs)"
    using g n good_node_sub_ok by blast
  then have "good pe (update_effective_sinks pe (Node i lv (snd (add_sink sink own)) eff cs))"
    using d by (intro update_establishes)
  then show "good pe (node_add_sink sink pe n)"
    by (simp only: n node_add_sink.simps)
qed

lemma node_remove_sink_good: "preserves_good (node_remove_sink sink)"
  unfolding preserves_good_def
proof (intro allI impI)
  fix pe n
  assume d: "distinct (map fst pe)" and g: "good pe n"
  obtain i lv own eff cs where n: "n = Node i lv own eff cs" by (cases n)
  have "distinct (map fst own)" using g n by (simp add: good_def)
  then have "distinct (map fst (snd (remove_sink sink own)))"
    by (simp add: remove_sink_def distinct_delete)
  then have "sub_ok (Node i lv (snd (remove_sink sink own)) eff cs)"
    using g n good_node_sub_ok by blast
  then have "good pe (update_effective_sinks pe (Node i lv (snd (remove_sink sink own)) eff cs))"
    using d by (intro update_establishes)
  then show "good pe (node_remove_sink sink pe n)"
    by (simp only: n node_remove_sink.simps)
qed

lemma node_set_sink_enabled_good: "preserves_good (node_set_sink_enabled sink en)"
  unfolding preserves_good_def
proof (intro allI impI)
  fix pe n
  assume d: "distinct (map fst pe)" and g: "good pe n"
  obtain i lv own eff cs where n: "n = Node i lv own eff cs" by (cases n)
  have "distinct (map fst own)" using g n by (simp add: good_def)
  then have "distinct (map fst (snd (set_sink_enabled sink en own)))"
    by (simp add: set_sink_enabled_def distinct_update split: option.splits)
  then have "sub_ok (Node i lv (snd (set_sink_enabled sink en own)) eff cs)"
    using g n good_node_sub_ok by blast
  then have
    "good pe (update_effective_sinks pe (Node i lv (snd (set_sink_enabled sink en own)) eff cs))"
    using d by (intro update_establishes)
  then show "good pe (node_set_sink_enabled sink en pe n)"
    by (simp only: n node_set_sink_enabled.simps)
qed

lemma node_attach_good: "preserves_good (node_attach j lvj)"
  unfolding preserves_good_def
proof (intro allI impI)
  fix pe n
  assume d: "distinct (map fst pe)" and g: "good pe n"
  obtain i lv own eff cs where n: "n = Node i lv own eff cs" by (cases n)
  have d_eff: "distinct (map fst eff)" using g n by (simp add: good_def)
  have "sub_ok (Node j lvj [] [] [])" by simp
  then have "good eff (update_effective_sinks eff (Node j lvj [] [] []))"
    using d_eff by (intro update_establishes)
  then show "good pe (node_attach j lvj pe n)"
    using g n by (auto simp: good_def)
qed

lemma apply_operation_good: "good [] t \<Longrightarrow> good [] (apply_operation op t)"
  by (cases op)
     (simp_all add: at_path_good(1) node_add_sink_good node_remove_sink_good
        node_set_sink_enabled_good node_attach_good)

lemma run_good: "good [] t \<Longrightarrow> good [] (run ops t)"
  unfolding run_def
  by (induction ops arbitrary: t) (simp_all add: apply_operation_good)

lemma root_good: "good [] (Node i lv [] [] [])"
  by (simp add: good_def overlay_def sink_enabled_def fun_eq_iff)

text \<open>
  C3: in every tree that a sequence of add, remove, enable and attach operations, in
  any order, builds from a root logger, the cached effective set of every node is the
  node's own enabled sinks, each mapped to the node, laid over the effective set of
  its parent (the empty set at the root), the local entry winning.
\<close>

theorem effective_sinks_invariant:
  "effective_ok Map.empty (run ops (Node i lv [] [] []))"
  using run_good [OF root_good, of ops i lv] by (simp add: good_def)

theorem effective_sinks_invariant_witness:
  "run [AddSink [] 7, Attach [] 1 Info, Attach [0] 2 Debug, AddSink [0] 8,
        SetSinkEnabled [] 7 False, AddSink [0, 0] 7, AddSink [] 7, RemoveSink [0] 8]
       (Node 0 Info [] [] []) =
     Node 0 Info [(7, True)] [(7, 0)]
       [Node 1 Info [] [(7, 0)] [Node 2 Debug [(7, True)] [(7, 2)] []]] \<and>
   effective_ok Map.empty
     (Node 0 Info [(7, True)] [(7, 0)]
        [Node 1 Info [] [(7, 0)] [Node 2 Debug [(7, True)] [(7, 2)] []]])"
proof -
  have r: "run [AddSink [] 7, Attach [] 1 Info, Attach [0] 2 Debug, AddSink [0] 8,
        SetSinkEnabled [] 7 False, AddSink [0, 0] 7, AddSink [] 7, RemoveSink [0] 8]
       (Node 0 Info [] [] []) =
     Node 0 Info [(7, True)] [(7, 0)]
       [Node 1 Info [] [(7, 0)] [Node 2 Debug [(7, True)] [(7, 2)] []]]"
    by (simp add: run_def recompute_def add_sink_def remove_sink_def set_sink_enabled_def
        Let_def)
  have "effective_ok Map.empty
     (run [AddSink [] 7, Attach [] 1 Info, Attach [0] 2 Debug, AddSink [0] 8,
        SetSinkEnabled [] 7 False, AddSink [0, 0] 7, AddSink [] 7, RemoveSink [0] 8]
       (Node 0 Info [] [] []))"
    by (rule effective_sinks_invariant)
  then show ?thesis by (simp only: r simp_thms)
qed

end
